theory Spec2Isabelle
  imports Main "HOL-Library.Sublist"
begin

section \<open>Python strings\<close>

text \<open>
  A Python \<^verbatim>\<open>str\<close> is modelled as a \<^typ>\<open>string\<close> whose characters are code points
  below 256.  The helpers below are the \<^verbatim>\<open>str\<close> methods that
  \<^verbatim>\<open>markdown_parser.py\<close> calls.
\<close>

definition NL :: string where
  "NL = [CHR 0x0A]"

text \<open>\<^verbatim>\<open>str.isspace\<close> on one character (also what \<^verbatim>\<open>\s\<close> matches in \<^verbatim>\<open>re\<close>).\<close>

definition is_space :: "char \<Rightarrow> bool" where
  "is_space c = (c \<in> set [CHR 0x09, CHR 0x0A, CHR 0x0B, CHR 0x0C, CHR 0x0D,
                            CHR 0x1C, CHR 0x1D, CHR 0x1E, CHR 0x1F, CHR 0x20,
                            CHR 0x85, CHR 0xA0])"

text \<open>The characters at which \<^verbatim>\<open>str.splitlines\<close> ends a line.\<close>

definition is_line_boundary :: "char \<Rightarrow> bool" where
  "is_line_boundary c = (c \<in> set [CHR 0x0A, CHR 0x0B, CHR 0x0C, CHR 0x0D,
                                    CHR 0x1C, CHR 0x1D, CHR 0x1E, CHR 0x85])"

text \<open>\<^verbatim>\<open>s.strip()\<close> and \<^verbatim>\<open>s.strip(chars)\<close>.\<close>

definition strip_where :: "(char \<Rightarrow> bool) \<Rightarrow> string \<Rightarrow> string" where
  "strip_where P s = rev (dropWhile P (rev (dropWhile P s)))"

definition strip :: "string \<Rightarrow> string" where
  "strip s = strip_where is_space s"

definition strip_chars :: "string \<Rightarrow> string \<Rightarrow> string" where
  "strip_chars cs s = strip_where (\<lambda>c. c \<in> set cs) s"

text \<open>\<^verbatim>\<open>sep.join(parts)\<close>.\<close>

fun join :: "string \<Rightarrow> string list \<Rightarrow> string" where
  "join sep [] = []"
| "join sep [x] = x"
| "join sep (x # y # ys) = x @ sep @ join sep (y # ys)"

text \<open>\<^verbatim>\<open>sub in s\<close> for strings.\<close>

fun contains :: "string \<Rightarrow> string \<Rightarrow> bool" where
  "contains sub [] = (sub = [])"
| "contains sub (c # cs) = (prefix sub (c # cs) \<or> contains sub cs)"

section \<open>Errors\<close>

text \<open>
  The exceptions that \<^verbatim>\<open>parse_markdown_to_tree\<close> can raise, with the message of a
  \<^verbatim>\<open>ValueError\<close>.
\<close>

datatype py_error = ValueError string | IndexError

section \<open>The data model\<close>

text \<open>
  \<^verbatim>\<open>TreeElement\<close> is recursive, so it is a datatype; its selectors carry the prefix
  \<open>node_\<close> where the record \<open>SemanticChunk\<close> has a field of the same name.
\<close>

datatype TreeElement =
  TreeElement (header: "string option") (node_content: string) (node_token_length: int)
              (children: "TreeElement list") (node_pages: "int set")

record SemanticChunk =
  content :: string
  token_length :: int
  headers :: "string list"
  pages :: "int set"

text \<open>
  The tokenizer is loaded from \<^verbatim>\<open>tokenizer.json\<close>, which is not part of the sources:
  \<^verbatim>\<open>get_token_length\<close> is a parameter \<open>tok\<close> of every function that counts tokens.
\<close>

type_synonym tokenizer = "string \<Rightarrow> nat"

section \<open>\<^verbatim>\<open>combine_chunks\<close>\<close>

text \<open>The \<^verbatim>\<open>zip\<close> loop that counts equal leading headers and breaks at the first difference.\<close>

fun common_prefix_length :: "string list \<Rightarrow> string list \<Rightarrow> nat" where
  "common_prefix_length (h1 # r1) (h2 # r2) =
     (if h1 \<noteq> h2 then 0 else Suc (common_prefix_length r1 r2))"
| "common_prefix_length _ _ = 0"

text \<open>
  The loop \<^verbatim>\<open>for level, header in enumerate(unique_headers, start=...)\<close>, appending
  \<^verbatim>\<open>f"{pre}{'#' * level} {header}"\<close>; \<open>pre\<close> is empty for the first chunk and a newline for
  the second.
\<close>

fun heading_lines :: "string \<Rightarrow> nat \<Rightarrow> string list \<Rightarrow> string list" where
  "heading_lines pre level [] = []"
| "heading_lines pre level (h # hs) =
     (pre @ replicate level CHR ''#'' @ '' '' @ h) # heading_lines pre (Suc level) hs"

definition combined_content :: "SemanticChunk \<Rightarrow> SemanticChunk \<Rightarrow> string" where
  "combined_content chunk1 chunk2 =
     (let p = common_prefix_length (headers chunk1) (headers chunk2) in
      if headers chunk1 = headers chunk2 then content chunk1 @ NL @ NL @ content chunk2
      else join (NL @ NL)
        ((if length (headers chunk1) > p
          then heading_lines [] (p + 1) (drop p (headers chunk1)) else [])
         @ [content chunk1]
         @ (if length (headers chunk2) > p
            then heading_lines NL (p + 1) (drop p (headers chunk2)) else [])
         @ [content chunk2]))"

definition combine_chunks :: "tokenizer \<Rightarrow> SemanticChunk \<Rightarrow> SemanticChunk \<Rightarrow> SemanticChunk" where
  "combine_chunks tok chunk1 chunk2 =
     (let p = common_prefix_length (headers chunk1) (headers chunk2);
          c = combined_content chunk1 chunk2
      in \<lparr>content = c, token_length = int (tok c),
          headers = take p (headers chunk1),
          pages = pages chunk1 \<union> pages chunk2\<rparr>)"

section \<open>The post-order chunker\<close>

text \<open>
  \<^verbatim>\<open>split_text_into_sentences(text)\<close> of \<^verbatim>\<open>text_splitter.py\<close>, called with the default
  \<^verbatim>\<open>parent_text=""\<close>.  The \<^verbatim>\<open>SentenceSplitter\<close> of the library is the parameter
  \<open>splitter\<close>.
\<close>

type_synonym sentence_splitter = "string \<Rightarrow> string list"

definition split_text_into_sentences :: "tokenizer \<Rightarrow> sentence_splitter \<Rightarrow> string \<Rightarrow> string list" where
  "split_text_into_sentences tok splitter text =
     (if tok text < 10 then [] else splitter text)"

text \<open>
  \<^verbatim>\<open>child_headers = current_headers.copy()\<close>, extended by \<^verbatim>\<open>child.header\<close> when that
  is true in Python: neither \<^verbatim>\<open>None\<close> nor the empty string.
\<close>

definition child_headers :: "string list \<Rightarrow> TreeElement \<Rightarrow> string list" where
  "child_headers current_headers child =
     (case header child of
        None \<Rightarrow> current_headers
      | Some h \<Rightarrow> if h \<noteq> [] then current_headers @ [h] else current_headers)"

text \<open>
  The block "Process current node's content": the chunks appended for the node's own
  content, after those of its children.
\<close>

definition own_chunks ::
  "tokenizer \<Rightarrow> sentence_splitter \<Rightarrow> TreeElement \<Rightarrow> int \<Rightarrow> string list \<Rightarrow> SemanticChunk list" where
  "own_chunks tok splitter root max_tokens current_headers =
     (if strip (node_content root) \<noteq> [] then
        (if node_token_length root > max_tokens then
           map (\<lambda>c. \<lparr>content = c, token_length = int (tok c),
                      headers = current_headers, pages = node_pages root\<rparr>)
               (split_text_into_sentences tok splitter (node_content root))
         else [\<lparr>content = node_content root, token_length = node_token_length root,
                headers = current_headers, pages = node_pages root\<rparr>])
      else [])"

text \<open>
  The merge loop.  Its state is the pair \<^verbatim>\<open>(combined_chunks, current_chunk)\<close>;
  \<open>merge_step\<close> is one iteration and \<open>merge_pass\<close> the loop with the final flush.
\<close>

definition merge_step ::
  "tokenizer \<Rightarrow> int \<Rightarrow> SemanticChunk list \<times> SemanticChunk option \<Rightarrow> SemanticChunk
     \<Rightarrow> SemanticChunk list \<times> SemanticChunk option" where
  "merge_step tok max_tokens st chunk =
     (case st of
        (combined_chunks, None) \<Rightarrow> (combined_chunks, Some chunk)
      | (combined_chunks, Some current_chunk) \<Rightarrow>
          (let potential_combined = combine_chunks tok current_chunk chunk in
           if token_length potential_combined \<le> max_tokens
           then (combined_chunks, Some potential_combined)
           else (combined_chunks @ [current_chunk], Some chunk)))"

definition merge_pass :: "tokenizer \<Rightarrow> int \<Rightarrow> SemanticChunk list \<Rightarrow> SemanticChunk list" where
  "merge_pass tok max_tokens chunks =
     (case foldl (merge_step tok max_tokens) ([], None) chunks of
        (combined_chunks, None) \<Rightarrow> combined_chunks
      | (combined_chunks, Some current_chunk) \<Rightarrow> combined_chunks @ [current_chunk])"

text \<open>
  \<^verbatim>\<open>process_tree_to_chunks\<close>.  \<open>children_loop\<close> is the loop over \<^verbatim>\<open>root.children\<close>
  with the list \<^verbatim>\<open>chunks\<close> as accumulator, \<open>pre_merge_chunks\<close> the list \<^verbatim>\<open>chunks\<close>
  when the merge loop starts.
\<close>

fun process_tree_to_chunks ::
  "tokenizer \<Rightarrow> sentence_splitter \<Rightarrow> TreeElement \<Rightarrow> int \<Rightarrow> string list \<Rightarrow> SemanticChunk list"
and children_loop ::
  "tokenizer \<Rightarrow> sentence_splitter \<Rightarrow> TreeElement list \<Rightarrow> int \<Rightarrow> string list
     \<Rightarrow> SemanticChunk list \<Rightarrow> SemanticChunk list" where
  "process_tree_to_chunks tok splitter (TreeElement h c n ch pg) max_tokens current_headers =
     merge_pass tok max_tokens
       (children_loop tok splitter ch max_tokens current_headers []
        @ own_chunks tok splitter (TreeElement h c n ch pg) max_tokens current_headers)"
| "children_loop tok splitter [] max_tokens current_headers chunks = chunks"
| "children_loop tok splitter (child # rest) max_tokens current_headers chunks =
     children_loop tok splitter rest max_tokens current_headers
       (chunks @ process_tree_to_chunks tok splitter child max_tokens
                   (child_headers current_headers child))"

definition pre_merge_chunks ::
  "tokenizer \<Rightarrow> sentence_splitter \<Rightarrow> TreeElement \<Rightarrow> int \<Rightarrow> string list \<Rightarrow> SemanticChunk list" where
  "pre_merge_chunks tok splitter root max_tokens current_headers =
     children_loop tok splitter (children root) max_tokens current_headers []
     @ own_chunks tok splitter root max_tokens current_headers"

section \<open>The chunk formatter\<close>

text \<open>\<^verbatim>\<open>" > ".join(filter(None, headers))\<close>: the filter keeps the non-empty strings.\<close>

definition get_full_header_path :: "string list \<Rightarrow> string" where
  "get_full_header_path hs = join '' > '' (filter (\<lambda>h. h \<noteq> []) hs)"

definition format_chunk_with_headers :: "string list \<Rightarrow> string \<Rightarrow> bool \<Rightarrow> string" where
  "format_chunk_with_headers hs c include_hashes =
     (if hs = [] then c
      else if include_hashes then c
      else get_full_header_path hs @ NL @ NL @ c)"

definition get_semantic_chunks ::
  "tokenizer \<Rightarrow> sentence_splitter \<Rightarrow> TreeElement \<Rightarrow> int \<Rightarrow> string list" where
  "get_semantic_chunks tok splitter root max_tokens =
     map (\<lambda>chunk. format_chunk_with_headers (headers chunk) (content chunk) False)
         (process_tree_to_chunks tok splitter root max_tokens [])"

section \<open>The tree builder\<close>

text \<open>
  \<^verbatim>\<open>s.split(sep)\<close>: the pieces between the non-overlapping occurrences of \<open>sep\<close>, found
  from the left.  Python raises \<^verbatim>\<open>ValueError\<close> for an empty separator.
\<close>

function split_from :: "string \<Rightarrow> string \<Rightarrow> string \<Rightarrow> string list" where
  "split_from sep cur [] = [cur]"
| "split_from sep cur (c # cs) =
     (if sep \<noteq> [] \<and> prefix sep (c # cs)
      then cur # split_from sep [] (drop (length sep) (c # cs))
      else split_from sep (cur @ [c]) cs)"
  by pat_completeness auto
termination
  by (relation "measure (\<lambda>(sep, cur, rest). length rest)") auto

definition str_split :: "string \<Rightarrow> string \<Rightarrow> py_error + string list" where
  "str_split s sep =
     (if sep = [] then Inl (ValueError ''empty separator'') else Inr (split_from sep [] s))"

text \<open>\<^verbatim>\<open>s.count(sub)\<close>: the number of non-overlapping occurrences.\<close>

function count_from :: "string \<Rightarrow> string \<Rightarrow> nat" where
  "count_from sub [] = 0"
| "count_from sub (c # cs) =
     (if sub \<noteq> [] \<and> prefix sub (c # cs)
      then Suc (count_from sub (drop (length sub) (c # cs)))
      else count_from sub cs)"
  by pat_completeness auto
termination
  by (relation "measure (\<lambda>(sub, rest). length rest)") auto

definition str_count :: "string \<Rightarrow> string \<Rightarrow> nat" where
  "str_count s sub = (if sub = [] then length s + 1 else count_from sub s)"

text \<open>\<^verbatim>\<open>s.splitlines()[0]\<close>, which raises \<^verbatim>\<open>IndexError\<close> on the empty string.\<close>

definition first_line :: "string \<Rightarrow> py_error + string" where
  "first_line s =
     (if s = [] then Inl IndexError else Inr (takeWhile (\<lambda>c. \<not> is_line_boundary c) s))"

text \<open>\<^verbatim>\<open>next((i for i, x in enumerate(xs) if P x), None)\<close>.\<close>

fun first_index :: "('a \<Rightarrow> bool) \<Rightarrow> 'a list \<Rightarrow> nat option" where
  "first_index P [] = None"
| "first_index P (x # xs) = (if P x then Some 0 else map_option Suc (first_index P xs))"

text \<open>
  \<^verbatim>\<open>re.match(r"^(#+)\s+(.*)$", heading_line)\<close>, returning \<^verbatim>\<open>group(2)\<close> of a match.  The
  argument is a stripped element of \<^verbatim>\<open>node_text.split("\n")\<close> and has no newline, so
  \<^verbatim>\<open>(.*)$\<close> takes everything after the white space.
\<close>

definition header_match :: "string \<Rightarrow> string option" where
  "header_match heading_line =
     (let hashes = takeWhile (\<lambda>c. c = CHR ''#'') heading_line;
          after = dropWhile (\<lambda>c. c = CHR ''#'') heading_line
      in if hashes \<noteq> [] \<and> takeWhile is_space after \<noteq> []
         then Some (dropWhile is_space after) else None)"

text \<open>
  A section as the \<^verbatim>\<open>MarkdownNodeParser\<close> of the library returns it: its text, and the
  entry \<^verbatim>\<open>header_path\<close> of its metadata when there is one.  The parser itself is the
  parameter \<open>seg\<close>.
\<close>

record TextNode =
  raw_text :: string
  header_path :: "string option"

type_synonym segmenter = "string \<Rightarrow> TextNode list"

text \<open>
  The generator of \<^verbatim>\<open>page_index\<close>: the first page that contains the first line of the
  section, \<open>-1\<close> when there is none.  The first line is computed when the first page is
  tested.
\<close>

definition page_index :: "string list \<Rightarrow> string \<Rightarrow> py_error + int" where
  "page_index pgs node_text =
     (case pgs of
        [] \<Rightarrow> Inr (- 1)
      | _ # _ \<Rightarrow>
          (case first_line node_text of
             Inl e \<Rightarrow> Inl e
           | Inr l \<Rightarrow>
               Inr (case first_index (contains l) pgs of None \<Rightarrow> - 1 | Some i \<Rightarrow> int i)))"

text \<open>\<^verbatim>\<open>set(range(page_index, page_index + node_text.count(page_break) + 1))\<close>.\<close>

definition page_count :: "int \<Rightarrow> string \<Rightarrow> string \<Rightarrow> int set" where
  "page_count pi node_text page_break = {pi ..< pi + int (str_count node_text page_break) + 1}"

definition path_parts :: "string option \<Rightarrow> string list" where
  "path_parts hp =
     (let path_str = (case hp of None \<Rightarrow> ''/'' | Some p \<Rightarrow> p) in
      if strip_chars ''/'' path_str \<noteq> [] then split_from ''/'' [] (strip_chars ''/'' path_str)
      else [])"

text \<open>
  The walk along \<^verbatim>\<open>path_parts\<close> and the final \<^verbatim>\<open>append\<close>.  The Python mutates the
  nodes in place; each node has one owner, so the model rebuilds the path from the root.
\<close>

fun insert_at :: "TreeElement \<Rightarrow> string list \<Rightarrow> TreeElement \<Rightarrow> TreeElement" where
  "insert_at (TreeElement h c n ch pg) [] new_child = TreeElement h c n (ch @ [new_child]) pg"
| "insert_at (TreeElement h c n ch pg) (part # parts) new_child =
     (case first_index (\<lambda>child. header child = Some part) ch of
        None \<Rightarrow>
          TreeElement h c n
            (ch @ [insert_at (TreeElement (Some part) [] 0 [] {}) parts new_child]) pg
      | Some i \<Rightarrow> TreeElement h c n (ch[i := insert_at (ch ! i) parts new_child]) pg)"

text \<open>The lines of a section, with the first line \<^verbatim>\<open>"---"\<close> removed when there is one.\<close>

definition section_lines :: "string \<Rightarrow> string list" where
  "section_lines node_text = remove1 ''---'' (split_from NL [] node_text)"

text \<open>The leaf built for one section: the body of the loop up to \<^verbatim>\<open>new_child\<close>.\<close>

definition new_child :: "tokenizer \<Rightarrow> string list \<Rightarrow> string \<Rightarrow> string \<Rightarrow> py_error + TreeElement" where
  "new_child tok pgs page_break node_text =
     (let lines = section_lines node_text;
          heading_line = (case lines of [] \<Rightarrow> [] | l # _ \<Rightarrow> strip l)
      in case page_index pgs node_text of
           Inl e \<Rightarrow> Inl e
         | Inr pi \<Rightarrow>
             (case header_match heading_line of
                Some g2 \<Rightarrow>
                  (let c = strip (join NL (drop 1 lines)) in
                   Inr (TreeElement (Some (strip g2)) c (int (tok c)) []
                          (page_count pi node_text page_break)))
              | None \<Rightarrow>
                  Inr (TreeElement None node_text (int (tok node_text)) []
                         (page_count pi node_text page_break))))"

fun build_tree ::
  "tokenizer \<Rightarrow> string list \<Rightarrow> string \<Rightarrow> TreeElement \<Rightarrow> TextNode list \<Rightarrow> py_error + TreeElement" where
  "build_tree tok pgs page_break root [] = Inr root"
| "build_tree tok pgs page_break root (node # nodes) =
     (case new_child tok pgs page_break (raw_text node) of
        Inl e \<Rightarrow> Inl e
      | Inr leaf \<Rightarrow>
          build_tree tok pgs page_break
            (insert_at root (path_parts (header_path node)) leaf) nodes)"

definition parse_markdown_to_tree ::
  "tokenizer \<Rightarrow> segmenter \<Rightarrow> string \<Rightarrow> string \<Rightarrow> py_error + TreeElement" where
  "parse_markdown_to_tree tok seg markdown_text page_break =
     (if strip markdown_text = [] then Inl (ValueError ''Empty markdown text provided'')
      else
        (let parsed_nodes = seg markdown_text in
         case str_split markdown_text page_break of
           Inl e \<Rightarrow> Inl e
         | Inr pgs \<Rightarrow>
             if parsed_nodes = [] then Inl (ValueError ''No content found in markdown text'')
             else build_tree tok pgs page_break (TreeElement None [] 0 [] {}) parsed_nodes))"

section \<open>A test tokenizer and the words of the specification\<close>

text \<open>
  Modelled from the spec: the tokenizer of \<^verbatim>\<open>token_encoder/encode.py\<close> reads
  \<^verbatim>\<open>tokenizer.json\<close>, which is missing from the sources.  Section 8 of the specification
  fixes a test tokenizer instead, whose token length is the number of words delimited by
  white space.  It is used at concrete inputs only.
\<close>

fun count_words :: "bool \<Rightarrow> string \<Rightarrow> nat" where
  "count_words in_word [] = 0"
| "count_words in_word (c # cs) =
     (if is_space c then count_words False cs
      else (if in_word then 0 else 1) + count_words True cs)"

definition word_count :: tokenizer where
  "word_count s = count_words False s"

text \<open>
  The combined content as section 4.2 of the specification words it: an inline heading
  line is as many markers as the level of the header, a space and the header; each chunk
  contributes the heading lines of its headers beyond the common prefix and then its
  content, "the same pattern" for both chunks.
\<close>

definition inline_heading :: "nat \<Rightarrow> string \<Rightarrow> string" where
  "inline_heading level h = replicate level CHR ''#'' @ '' '' @ h"

definition unique_heading_lines :: "nat \<Rightarrow> string list \<Rightarrow> string list" where
  "unique_heading_lines p hs = map (\<lambda>i. inline_heading (i + 1) (hs ! i)) [p..<length hs]"

definition combine_content_spec :: "SemanticChunk \<Rightarrow> SemanticChunk \<Rightarrow> string" where
  "combine_content_spec a b =
     (let p = length (longest_common_prefix (headers a) (headers b)) in
      if headers a = headers b then content a @ NL @ NL @ content b
      else join (NL @ NL)
             (unique_heading_lines p (headers a) @ [content a]
              @ unique_heading_lines p (headers b) @ [content b]))"

text \<open>Two chunks of sibling subsections \<open>A\<close> and \<open>B\<close> of a section \<open>T\<close>.\<close>

definition chunk_A :: SemanticChunk where
  "chunk_A = \<lparr>content = ''x'', token_length = 1, headers = [''T'', ''A''], pages = {0}\<rparr>"

definition chunk_B :: SemanticChunk where
  "chunk_B = \<lparr>content = ''y'', token_length = 1, headers = [''T'', ''B''], pages = {1}\<rparr>"

section \<open>Auxiliary definitions for the proofs\<close>

text \<open>
  The merge loop as a recursion on the current chunk: \<open>greedy cur xs\<close> is the list that the
  loop returns when \<^verbatim>\<open>current_chunk\<close> is \<open>cur\<close> and the chunks \<open>xs\<close> are still to come.
\<close>

fun greedy :: "tokenizer \<Rightarrow> int \<Rightarrow> SemanticChunk \<Rightarrow> SemanticChunk list \<Rightarrow> SemanticChunk list" where
  "greedy tok max_tokens cur [] = [cur]"
| "greedy tok max_tokens cur (x # xs) =
     (if token_length (combine_chunks tok cur x) \<le> max_tokens
      then greedy tok max_tokens (combine_chunks tok cur x) xs
      else cur # greedy tok max_tokens x xs)"

text \<open>The chunk obtained from a non-empty group of chunks by combining them from the left.\<close>

definition merged :: "tokenizer \<Rightarrow> SemanticChunk list \<Rightarrow> SemanticChunk" where
  "merged tok g = foldl (combine_chunks tok) (hd g) (tl g)"

text \<open>No header of the chunk is the empty string.\<close>

definition proper_headers :: "SemanticChunk \<Rightarrow> bool" where
  "proper_headers c = ([] \<notin> set (headers c))"

text \<open>
  The chunks that the fallback splitter contributes in a subtree: for every node of
  the subtree whose own content is not blank and over the budget, the chunks of its
  sentence groups, under the header path of that node.
\<close>

fun fallback_chunks ::
  "tokenizer \<Rightarrow> sentence_splitter \<Rightarrow> TreeElement \<Rightarrow> int \<Rightarrow> string list \<Rightarrow> SemanticChunk list" where
  "fallback_chunks tok splitter (TreeElement h c n ch pg) max_tokens current_headers =
     concat (map (\<lambda>child. fallback_chunks tok splitter child max_tokens
                            (child_headers current_headers child)) ch)
     @ (if strip c \<noteq> [] \<and> n > max_tokens
        then own_chunks tok splitter (TreeElement h c n ch pg) max_tokens current_headers
        else [])"

section \<open>Test inputs\<close>

text \<open>
  A sentence splitter that returns its text as one group, as the library's splitter with
  its chunk size of 500 does for a short text.
\<close>

definition one_group :: sentence_splitter where
  "one_group t = [t]"

text \<open>A leaf of 12 words, and the tree of the two-section example of the specification.\<close>

definition long_leaf :: TreeElement where
  "long_leaf = TreeElement None ''a b c d e f g h i j k l'' 12 [] {0}"

definition two_sections :: TreeElement where
  "two_sections =
     TreeElement None [] 0
       [TreeElement (Some ''Title'') [] 0
          [TreeElement (Some ''A'') ''word1 word2'' 2 [] {0},
           TreeElement (Some ''B'') ''word3 word4 word5'' 3 [] {0}] {}] {}"

definition leaf_A :: TreeElement where
  "leaf_A = TreeElement (Some ''A'') ''word1 word2'' 2 [] {0}"

definition intro_and_leaf :: TreeElement where
  "intro_and_leaf = TreeElement (Some ''Title'') ''intro'' 1 [leaf_A] {0}"

definition title_A :: SemanticChunk where
  "title_A = \<lparr>content = ''word1 word2'', token_length = 2, headers = [''Title'', ''A''], pages = {0}\<rparr>"

definition title_B :: SemanticChunk where
  "title_B = \<lparr>content = ''word3 word4 word5'', token_length = 3, headers = [''Title'', ''B''], pages = {0}\<rparr>"

text \<open>
  The segmenter on a document with at most one heading line, which is then its first
  line: one section, the stripped document, at the root of the heading hierarchy.
\<close>

definition one_section :: segmenter where
  "one_section d = [\<lparr>raw_text = strip d, header_path = Some ''/''\<rparr>]"

text \<open>The default of the parameter \<^verbatim>\<open>page_break\<close>.\<close>

definition default_page_break :: string where
  "default_page_break = NL @ ''---'' @ NL"

text \<open>Documents: one section with two page breaks, and a text with the page break \<open>|\<close>.\<close>

definition two_breaks :: string where
  "two_breaks = ''# H'' @ NL @ ''a'' @ NL @ ''---'' @ NL @ ''b'' @ NL @ ''---'' @ NL @ ''c''"

definition bar_doc :: string where
  "bar_doc = ''a|b''"

text \<open>The tree that the parser returns for the document \<open>Hello world.\<close>\<close>

definition hello_tree :: TreeElement where
  "hello_tree = TreeElement None [] 0 [TreeElement None ''Hello world.'' 2 [] {0}] {}"

text \<open>The header, content, token length and pages of every node of a tree.\<close>

fun node_fields :: "TreeElement \<Rightarrow> (string option \<times> string \<times> int \<times> int set) list" where
  "node_fields (TreeElement h c n ch pg) = (h, c, n, pg) # concat (map node_fields ch)"

section \<open>Properties of \<^verbatim>\<open>combine_chunks\<close>\<close>

lemma take_common_prefix_length:
  "take (common_prefix_length xs ys) xs = longest_common_prefix xs ys"
  by (induction xs ys rule: common_prefix_length.induct) auto

lemma length_longest_common_prefix:
  "length (longest_common_prefix xs ys) = common_prefix_length xs ys"
  by (induction xs ys rule: common_prefix_length.induct) auto

lemma headers_combine_chunks:
  "headers (combine_chunks tok a b) = longest_common_prefix (headers a) (headers b)"
  by (simp add: combine_chunks_def Let_def take_common_prefix_length)

lemma content_combine_chunks:
  "content (combine_chunks tok a b) = combined_content a b"
  by (simp add: combine_chunks_def Let_def)

lemma token_length_combine_chunks:
  "token_length (combine_chunks tok a b) = int (tok (combined_content a b))"
  by (simp add: combine_chunks_def Let_def)

lemma pages_combine_chunks:
  "pages (combine_chunks tok a b) = pages a \<union> pages b"
  by (simp add: combine_chunks_def Let_def)

lemma combine_chunks_ignores_lengths:
  "combine_chunks tok (a\<lparr>token_length := m\<rparr>) (b\<lparr>token_length := n\<rparr>) = combine_chunks tok a b"
  by (simp add: combine_chunks_def combined_content_def Let_def)

text \<open>
  C3: for all chunks \<open>a\<close> and \<open>b\<close>, the headers of \<open>combine_chunks a b\<close> are the longest
  common prefix of the headers of \<open>a\<close> and of \<open>b\<close> (a prefix of both, and every common
  prefix is a prefix of it), its pages are the union of the pages of \<open>a\<close> and \<open>b\<close>, and
  its token length is the tokenizer's count of the combined content; the token lengths
  stored in \<open>a\<close> and \<open>b\<close> play no part in the result.
\<close>

theorem combine_chunks_fields:
  "prefix (headers (combine_chunks tok a b)) (headers a)
   \<and> prefix (headers (combine_chunks tok a b)) (headers b)
   \<and> (\<forall>q. prefix q (headers a) \<and> prefix q (headers b)
          \<longrightarrow> prefix q (headers (combine_chunks tok a b)))
   \<and> pages (combine_chunks tok a b) = pages a \<union> pages b
   \<and> token_length (combine_chunks tok a b) = int (tok (content (combine_chunks tok a b)))
   \<and> combine_chunks tok (a\<lparr>token_length := m\<rparr>) (b\<lparr>token_length := n\<rparr>)
       = combine_chunks tok a b"
  by (simp add: headers_combine_chunks longest_common_prefix_prefix1
      longest_common_prefix_prefix2 longest_common_prefix_max_prefix pages_combine_chunks
      token_length_combine_chunks content_combine_chunks combine_chunks_ignores_lengths)

text \<open>
  The chunks of \<open>T > A\<close> and \<open>T > B\<close>: the common prefix \<open>[T]\<close> is a prefix of the merged
  headers, the pages are \<open>{0, 1}\<close>, and the merged content has 6 words where the two
  stored lengths add up to 2.
\<close>

theorem combine_chunks_fields_witness:
  "prefix [''T''] (headers chunk_A) \<and> prefix [''T''] (headers chunk_B)
   \<and> prefix [''T''] (headers (combine_chunks word_count chunk_A chunk_B))
   \<and> pages (combine_chunks word_count chunk_A chunk_B) = {0, 1}
   \<and> token_length (combine_chunks word_count chunk_A chunk_B) = 6
   \<and> token_length chunk_A + token_length chunk_B = 2"
proof -
  have h: "prefix [''T''] (headers chunk_A) \<and> prefix [''T''] (headers chunk_B)"
    by (simp add: chunk_A_def chunk_B_def)
  have c: "content (combine_chunks word_count chunk_A chunk_B)
           = ''## A'' @ NL @ NL @ ''x'' @ NL @ NL @ NL @ ''## B'' @ NL @ NL @ ''y''"
    by (simp add: combine_chunks_def combined_content_def chunk_A_def chunk_B_def Let_def)
  have w: "word_count (''## A'' @ NL @ NL @ ''x'' @ NL @ NL @ NL @ ''## B'' @ NL @ NL @ ''y'') = 6"
    by (simp add: word_count_def NL_def is_space_def)
  have p: "pages chunk_A \<union> pages chunk_B = {0, 1}"
    by (simp add: chunk_A_def chunk_B_def insert_commute)
  have l: "token_length chunk_A + token_length chunk_B = 2"
    by (simp add: chunk_A_def chunk_B_def)
  from combine_chunks_fields [of word_count chunk_A chunk_B 1 1] h c w p l
  show ?thesis by simp
qed

text \<open>
  C4, as stated, fails: for the chunks of \<open>T > A\<close> and \<open>T > B\<close> the code puts a newline
  in front of the heading line of the second chunk, so its content is not the text that
  the specification describes.
\<close>

lemma content_chunk_A_chunk_B:
  "content (combine_chunks tok chunk_A chunk_B)
   = ''## A'' @ NL @ NL @ ''x'' @ NL @ NL @ NL @ ''## B'' @ NL @ NL @ ''y''"
  by (simp add: combine_chunks_def combined_content_def chunk_A_def chunk_B_def Let_def)

lemma combine_content_spec_chunk_A_chunk_B:
  "combine_content_spec chunk_A chunk_B
   = ''## A'' @ NL @ NL @ ''x'' @ NL @ NL @ ''## B'' @ NL @ NL @ ''y''"
  by (simp add: combine_content_spec_def unique_heading_lines_def inline_heading_def
      chunk_A_def chunk_B_def Let_def upt_rec)

theorem combine_chunks_content_counterexample:
  "content (combine_chunks word_count chunk_A chunk_B) \<noteq> combine_content_spec chunk_A chunk_B"
  by (simp add: content_chunk_A_chunk_B combine_content_spec_chunk_A_chunk_B NL_def)

lemma heading_lines_map:
  "heading_lines pre l hs = map (\<lambda>i. pre @ inline_heading (l + i) (hs ! i)) [0..<length hs]"
proof (induction hs arbitrary: l)
  case Nil
  then show ?case by simp
next
  case (Cons h hs)
  have "[0..<length (h # hs)] = 0 # map Suc [0..<length hs]"
    by (simp add: upt_conv_Cons map_Suc_upt del: upt_Suc)
  then show ?case
    by (simp add: Cons.IH inline_heading_def comp_def del: upt_Suc)
qed

lemma heading_lines_drop:
  "heading_lines pre (p + 1) (drop p hs) = map (\<lambda>l. pre @ l) (unique_heading_lines p hs)"
proof -
  have "[p..<length hs] = map (\<lambda>i. i + p) [0..<length hs - p]"
    by (cases "p \<le> length hs") (simp_all add: map_add_upt)
  then show ?thesis
    by (simp add: heading_lines_map unique_heading_lines_def comp_def add.commute add.left_commute)
qed

lemma guarded_heading_lines:
  "(if length hs > p then heading_lines pre (p + 1) (drop p hs) else [])
   = map (\<lambda>l. pre @ l) (unique_heading_lines p hs)"
proof (cases "length hs > p")
  case True
  then show ?thesis by (simp only: heading_lines_drop if_True)
next
  case False
  then show ?thesis by (simp add: unique_heading_lines_def)
qed

lemma combined_content_unique_heading_lines:
  "combined_content a b =
     (if headers a = headers b then content a @ NL @ NL @ content b
      else join (NL @ NL)
             (unique_heading_lines (common_prefix_length (headers a) (headers b)) (headers a)
              @ [content a]
              @ map (\<lambda>l. NL @ l)
                  (unique_heading_lines (common_prefix_length (headers a) (headers b)) (headers b))
              @ [content b]))"
proof -
  have e: "map ((@) []) xs = xs" for xs :: "string list"
    by (induction xs) simp_all
  show ?thesis
    unfolding combined_content_def Let_def guarded_heading_lines by (simp add: e)
qed

text \<open>
  C4, amended: when the headers of \<open>a\<close> and \<open>b\<close> are equal the content is the content of
  \<open>a\<close>, a blank line and the content of \<open>b\<close>; otherwise it is, joined with blank lines,
  one heading line for each header of \<open>a\<close> beyond the common prefix (as many markers as
  the position of the header in the list, counted from 1), the content of \<open>a\<close>, one
  heading line for each header of \<open>b\<close> beyond the prefix, each of these with a newline
  in front of it, and the content of \<open>b\<close>.
\<close>

theorem combine_chunks_content:
  "content (combine_chunks tok a b) =
     (if headers a = headers b then content a @ NL @ NL @ content b
      else join (NL @ NL)
             (unique_heading_lines (length (longest_common_prefix (headers a) (headers b)))
                (headers a)
              @ [content a]
              @ map (\<lambda>l. NL @ l)
                  (unique_heading_lines (length (longest_common_prefix (headers a) (headers b)))
                     (headers b))
              @ [content b]))"
  by (simp only: content_combine_chunks length_longest_common_prefix
      combined_content_unique_heading_lines)

theorem combine_chunks_content_witness:
  "headers chunk_A \<noteq> headers chunk_B
   \<and> content (combine_chunks word_count chunk_A chunk_B)
     = ''## A'' @ NL @ NL @ ''x'' @ NL @ NL @ NL @ ''## B'' @ NL @ NL @ ''y''"
proof -
  have h: "headers chunk_A \<noteq> headers chunk_B"
    by (simp add: chunk_A_def chunk_B_def)
  have u: "unique_heading_lines (length (longest_common_prefix (headers chunk_A) (headers chunk_B)))
             (headers chunk_A) = [''## A'']"
    "unique_heading_lines (length (longest_common_prefix (headers chunk_A) (headers chunk_B)))
             (headers chunk_B) = [''## B'']"
    by (simp_all add: unique_heading_lines_def inline_heading_def chunk_A_def chunk_B_def upt_rec)
  have c: "content chunk_A = ''x''" "content chunk_B = ''y''"
    by (simp_all add: chunk_A_def chunk_B_def)
  from combine_chunks_content [of word_count chunk_A chunk_B] h u c
  show ?thesis by simp
qed

section \<open>The word-count tokenizer and \<^verbatim>\<open>combine_chunks\<close>\<close>

text \<open>
  The combined content of two chunks has the words of both contents and, for each
  header beyond the common prefix, the words of the header and one word for its
  markers.  Combining with a chunk that has been merged further never has fewer words.
\<close>

lemma count_words_append_space:
  "is_space c \<Longrightarrow> count_words b (x @ c # y) = count_words b x + count_words False y"
  by (induction x arbitrary: b) simp_all

lemma is_space_NL: "is_space (CHR 0x0A)" "is_space CHR '' ''" "\<not> is_space CHR ''#''"
  by (simp_all add: is_space_def)

lemma word_count_blank_line:
  "word_count (x @ NL @ NL @ y) = word_count x + word_count y"
  by (simp add: word_count_def NL_def count_words_append_space is_space_NL)

lemma word_count_join:
  "word_count (join (NL @ NL) parts) = sum_list (map word_count parts)"
proof (induction "NL @ NL" parts rule: join.induct)
  case 1
  then show ?case by (simp add: word_count_def)
next
  case (2 x)
  then show ?case by simp
next
  case (3 x y ys)
  then show ?case using word_count_blank_line [of x "join (NL @ NL) (y # ys)"] by simp
qed

lemma count_words_hashes:
  "count_words True (replicate n CHR ''#'' @ CHR '' '' # h) = count_words False h"
  by (induction n) (simp_all add: is_space_NL)

lemma word_count_heading_line:
  "word_count (replicate (Suc n) CHR ''#'' @ '' '' @ h) = Suc (word_count h)"
  "word_count (NL @ replicate (Suc n) CHR ''#'' @ '' '' @ h) = Suc (word_count h)"
  by (simp_all add: word_count_def NL_def is_space_NL count_words_hashes)

lemma sum_heading_lines:
  "pre = [] \<or> pre = NL \<Longrightarrow>
     sum_list (map word_count (heading_lines pre (Suc l) hs))
       = sum_list (map (\<lambda>h. Suc (word_count h)) hs)"
proof (induction hs arbitrary: l)
  case Nil
  then show ?case by simp
next
  case (Cons h hs)
  from Cons.prems have "word_count (pre @ replicate (Suc l) CHR ''#'' @ '' '' @ h) = Suc (word_count h)"
    using word_count_heading_line [of l h] by auto
  with Cons show ?case by simp
qed

lemma common_prefix_length_same: "common_prefix_length xs xs = length xs"
  by (induction xs) simp_all

lemma common_prefix_length_take:
  "common_prefix_length xs (take q ys) = min (common_prefix_length xs ys) q"
proof (induction xs arbitrary: ys q)
  case Nil
  then show ?case by simp
next
  case (Cons x xs)
  show ?case
  proof (cases ys)
    case Nil
    then show ?thesis by simp
  next
    case (Cons y zs)
    then show ?thesis by (cases q) (simp_all add: Cons.IH)
  qed
qed

lemma word_count_combined_content:
  "word_count (combined_content a b)
     = sum_list (map (\<lambda>h. Suc (word_count h))
         (drop (common_prefix_length (headers a) (headers b)) (headers a)))
       + word_count (content a)
       + sum_list (map (\<lambda>h. Suc (word_count h))
           (drop (common_prefix_length (headers a) (headers b)) (headers b)))
       + word_count (content b)"
proof (cases "headers a = headers b")
  case True
  then show ?thesis
    by (simp add: combined_content_def common_prefix_length_same word_count_blank_line)
next
  case False
  have g: "(if length hs > p then heading_lines pre (p + 1) (drop p hs) else [])
           = heading_lines pre (Suc p) (drop p hs)" for pre p and hs :: "string list"
    by simp
  from False show ?thesis
    unfolding combined_content_def Let_def g
    by (simp add: word_count_join sum_heading_lines)
qed

lemma drop_split:
  assumes "i \<le> j"
  shows "drop i xs = take (j - i) (drop i xs) @ drop j xs"
proof -
  have "take (j - i) (drop i xs) @ drop (j - i) (drop i xs) = drop i xs"
    by (rule append_take_drop_id)
  moreover from assms have "drop (j - i) (drop i xs) = drop j xs"
    by simp
  ultimately show ?thesis by (simp only:)
qed

lemma sum_drop_mono:
  fixes f :: "'a \<Rightarrow> nat"
  assumes "i \<le> j"
  shows "sum_list (map f (drop j xs)) \<le> sum_list (map f (drop i xs))"
proof -
  have "sum_list (map f (drop i xs))
      = sum_list (map f (take (j - i) (drop i xs))) + sum_list (map f (drop j xs))"
    by (subst drop_split [OF assms]) simp
  then show ?thesis by simp
qed

lemma drop_take_append:
  assumes "i \<le> q"
  shows "drop i (take q xs) @ drop q xs = drop i xs"
proof (cases "q \<le> length xs")
  case True
  have "drop i (take q xs @ drop q xs) = drop i (take q xs) @ drop (i - length (take q xs)) (drop q xs)"
    by (rule drop_append)
  with True assms show ?thesis by simp
next
  case False
  then show ?thesis by simp
qed

lemma sum_drop_take:
  fixes f :: "'a \<Rightarrow> nat"
  assumes "i \<le> q"
  shows "sum_list (map f (drop i (take q xs))) + sum_list (map f (drop q xs))
           = sum_list (map f (drop i xs))"
proof -
  have "sum_list (map f (drop i (take q xs) @ drop q xs)) = sum_list (map f (drop i xs))"
    by (simp only: drop_take_append [OF assms])
  then show ?thesis by simp
qed

lemma word_count_combine_mono:
  "word_count (combined_content a b)
     \<le> word_count (combined_content a (combine_chunks word_count b c))"
proof -
  let ?H = "\<lambda>hs. sum_list (map (\<lambda>h. Suc (word_count h)) hs)"
  let ?p = "common_prefix_length (headers a) (headers b)"
  let ?q = "common_prefix_length (headers b) (headers c)"
  let ?m = "min ?p ?q"
  have hd: "headers (combine_chunks word_count b c) = take ?q (headers b)"
    and ct: "content (combine_chunks word_count b c) = combined_content b c"
    by (simp_all add: combine_chunks_def Let_def)
  have 1: "?H (drop ?p (headers a)) \<le> ?H (drop ?m (headers a))"
    by (rule sum_drop_mono) simp
  have 2: "?H (drop ?m (take ?q (headers b))) + ?H (drop ?q (headers b)) = ?H (drop ?m (headers b))"
    by (rule sum_drop_take) simp
  have 3: "?H (drop ?p (headers b)) \<le> ?H (drop ?m (headers b))"
    by (rule sum_drop_mono) simp
  have l: "word_count (combined_content a b)
      = ?H (drop ?p (headers a)) + word_count (content a) + ?H (drop ?p (headers b))
        + word_count (content b)"
    by (rule word_count_combined_content)
  have r: "word_count (combined_content a (combine_chunks word_count b c))
      = ?H (drop ?m (headers a)) + word_count (content a) + ?H (drop ?m (take ?q (headers b)))
        + (?H (drop ?q (headers b)) + word_count (content b)
           + ?H (drop ?q (headers c)) + word_count (content c))"
    unfolding word_count_combined_content [of a "combine_chunks word_count b c"] hd ct
      common_prefix_length_take word_count_combined_content [of b c] ..
  from 1 2 3 show ?thesis unfolding l r by linarith
qed

section \<open>Properties of the merge loop\<close>

lemma foldl_merge_step:
  "(case foldl (merge_step tok mt) (acc, Some cur) xs of
      (cc, None) \<Rightarrow> cc | (cc, Some c) \<Rightarrow> cc @ [c]) = acc @ greedy tok mt cur xs"
  by (induction xs arbitrary: acc cur) (simp_all add: merge_step_def Let_def)

lemma merge_pass_Nil: "merge_pass tok mt [] = []"
  by (simp add: merge_pass_def)

lemma merge_pass_Cons: "merge_pass tok mt (x # xs) = greedy tok mt x xs"
  using foldl_merge_step [of tok mt "[]" x xs] by (simp add: merge_pass_def merge_step_def)

lemma greedy_pres:
  assumes "\<And>a b. P a \<Longrightarrow> P b \<Longrightarrow> P (combine_chunks tok a b)"
  shows "P cur \<Longrightarrow> list_all P xs \<Longrightarrow> list_all P (greedy tok mt cur xs)"
  by (induction xs arbitrary: cur) (simp_all add: assms)

lemma merge_pass_pres:
  assumes "\<And>a b. P a \<Longrightarrow> P b \<Longrightarrow> P (combine_chunks tok a b)" and "list_all P xs"
  shows "list_all P (merge_pass tok mt xs)"
  using assms(2) by (cases xs) (simp_all add: merge_pass_Nil merge_pass_Cons greedy_pres [of P, OF assms(1)])

lemma greedy_member:
  "c \<in> set (greedy tok mt cur xs) \<Longrightarrow> c = cur \<or> c \<in> set xs \<or> token_length c \<le> mt"
proof (induction xs arbitrary: cur)
  case Nil
  then show ?case by simp
next
  case (Cons x xs)
  show ?case
  proof (cases "token_length (combine_chunks tok cur x) \<le> mt")
    case True
    with Cons.prems have "c \<in> set (greedy tok mt (combine_chunks tok cur x) xs)" by simp
    from Cons.IH [OF this] True show ?thesis by auto
  next
    case False
    with Cons.prems have "c = cur \<or> c \<in> set (greedy tok mt x xs)" by simp
    with Cons.IH [of x] show ?thesis by auto
  qed
qed

lemma merge_pass_member:
  "c \<in> set (merge_pass tok mt xs) \<Longrightarrow> c \<in> set xs \<or> token_length c \<le> mt"
  by (cases xs) (auto simp: merge_pass_Nil merge_pass_Cons dest: greedy_member)

lemma greedy_groups:
  "\<exists>g gs. xs = g @ concat gs \<and> [] \<notin> set gs
     \<and> greedy tok mt cur xs = foldl (combine_chunks tok) cur g # map (merged tok) gs
     \<and> (\<forall>k. 1 \<le> k \<and> k \<le> length g \<longrightarrow>
            token_length (foldl (combine_chunks tok) cur (take k g)) \<le> mt)
     \<and> (\<forall>h\<in>set gs. \<forall>k. 2 \<le> k \<and> k \<le> length h \<longrightarrow>
            token_length (merged tok (take k h)) \<le> mt)
     \<and> (\<forall>h hs. gs = h # hs \<longrightarrow>
            mt < token_length (combine_chunks tok (foldl (combine_chunks tok) cur g) (hd h)))
     \<and> (\<forall>gs1 a b gs2. gs = gs1 @ a # b # gs2 \<longrightarrow>
            mt < token_length (combine_chunks tok (merged tok a) (hd b)))"
proof (induction xs arbitrary: cur)
  case Nil
  have "[] = [] @ concat ([] :: SemanticChunk list list)" by simp
  then show ?case
    by (intro exI [of _ "[]"]) simp
next
  case (Cons x xs)
  let ?p = "combine_chunks tok cur x"
  show ?case
  proof (cases "token_length ?p \<le> mt")
    case True
    from Cons.IH [of ?p] obtain g gs where
      xs: "xs = g @ concat gs" and ne: "[] \<notin> set gs"
      and gr: "greedy tok mt ?p xs = foldl (combine_chunks tok) ?p g # map (merged tok) gs"
      and pre: "\<forall>k. 1 \<le> k \<and> k \<le> length g \<longrightarrow>
            token_length (foldl (combine_chunks tok) ?p (take k g)) \<le> mt"
      and grp: "\<forall>h\<in>set gs. \<forall>k. 2 \<le> k \<and> k \<le> length h \<longrightarrow>
            token_length (merged tok (take k h)) \<le> mt"
      and bnd: "\<forall>h hs. gs = h # hs \<longrightarrow>
            mt < token_length (combine_chunks tok (foldl (combine_chunks tok) ?p g) (hd h))"
      and adj: "\<forall>gs1 a b gs2. gs = gs1 @ a # b # gs2 \<longrightarrow>
            mt < token_length (combine_chunks tok (merged tok a) (hd b))"
      by blast
    have pre': "token_length (foldl (combine_chunks tok) cur (take k (x # g))) \<le> mt"
      if "1 \<le> k" "k \<le> length (x # g)" for k
    proof (cases k)
      case 0
      with that show ?thesis by simp
    next
      case (Suc j)
      show ?thesis
      proof (cases j)
        case 0
        with Suc True show ?thesis by simp
      next
        case (Suc i)
        with \<open>k = Suc j\<close> that pre show ?thesis by simp
      qed
    qed
    show ?thesis
      apply (rule exI [of _ "x # g"])
      apply (rule exI [of _ gs])
      using xs ne gr grp bnd adj pre' True by simp
  next
    case False
    from Cons.IH [of x] obtain g gs where
      xs: "xs = g @ concat gs" and ne: "[] \<notin> set gs"
      and gr: "greedy tok mt x xs = foldl (combine_chunks tok) x g # map (merged tok) gs"
      and pre: "\<forall>k. 1 \<le> k \<and> k \<le> length g \<longrightarrow>
            token_length (foldl (combine_chunks tok) x (take k g)) \<le> mt"
      and grp: "\<forall>h\<in>set gs. \<forall>k. 2 \<le> k \<and> k \<le> length h \<longrightarrow>
            token_length (merged tok (take k h)) \<le> mt"
      and bnd: "\<forall>h hs. gs = h # hs \<longrightarrow>
            mt < token_length (combine_chunks tok (foldl (combine_chunks tok) x g) (hd h))"
      and adj: "\<forall>gs1 a b gs2. gs = gs1 @ a # b # gs2 \<longrightarrow>
            mt < token_length (combine_chunks tok (merged tok a) (hd b))"
      by blast
    have grp0: "token_length (merged tok (take k (x # g))) \<le> mt"
      if "2 \<le> k" "k \<le> length (x # g)" for k
    proof (cases k)
      case 0
      with that show ?thesis by simp
    next
      case (Suc j)
      with that pre show ?thesis by (simp add: merged_def)
    qed
    have adj': "mt < token_length (combine_chunks tok (merged tok a) (hd b))"
      if "(x # g) # gs = gs1 @ a # b # gs2" for gs1 a b gs2
    proof (cases gs1)
      case Nil
      with that have "a = x # g" "gs = b # gs2" by simp_all
      with bnd show ?thesis by (simp add: merged_def)
    next
      case (Cons c cs)
      with that have "gs = cs @ a # b # gs2" by simp
      with adj show ?thesis by blast
    qed
    show ?thesis
      apply (rule exI [of _ "[]"])
      apply (rule exI [of _ "(x # g) # gs"])
      using xs ne gr grp grp0 adj' False by (auto simp: merged_def)
  qed
qed

lemma merge_pass_groups:
  "\<exists>gs. concat gs = xs \<and> [] \<notin> set gs
     \<and> merge_pass tok mt xs = map (merged tok) gs
     \<and> (\<forall>g\<in>set gs. \<forall>k. 2 \<le> k \<and> k \<le> length g \<longrightarrow>
            token_length (merged tok (take k g)) \<le> mt)
     \<and> (\<forall>gs1 a b gs2. gs = gs1 @ a # b # gs2 \<longrightarrow>
            mt < token_length (combine_chunks tok (merged tok a) (hd b)))"
proof (cases xs)
  case Nil
  then show ?thesis by (intro exI [of _ "[]"]) (simp add: merge_pass_Nil)
next
  case (Cons x ys)
  from greedy_groups [of ys tok mt x] obtain g gs where
      xs: "ys = g @ concat gs" and ne: "[] \<notin> set gs"
      and gr: "greedy tok mt x ys = foldl (combine_chunks tok) x g # map (merged tok) gs"
      and pre: "\<forall>k. 1 \<le> k \<and> k \<le> length g \<longrightarrow>
            token_length (foldl (combine_chunks tok) x (take k g)) \<le> mt"
      and grp: "\<forall>h\<in>set gs. \<forall>k. 2 \<le> k \<and> k \<le> length h \<longrightarrow>
            token_length (merged tok (take k h)) \<le> mt"
      and bnd: "\<forall>h hs. gs = h # hs \<longrightarrow>
            mt < token_length (combine_chunks tok (foldl (combine_chunks tok) x g) (hd h))"
      and adj: "\<forall>gs1 a b gs2. gs = gs1 @ a # b # gs2 \<longrightarrow>
            mt < token_length (combine_chunks tok (merged tok a) (hd b))"
    by blast
  have grp0: "token_length (merged tok (take k (x # g))) \<le> mt"
    if "2 \<le> k" "k \<le> length (x # g)" for k
  proof (cases k)
    case 0
    with that show ?thesis by simp
  next
    case (Suc j)
    with that pre show ?thesis by (simp add: merged_def)
  qed
  have adj': "mt < token_length (combine_chunks tok (merged tok a) (hd b))"
    if "(x # g) # gs = gs1 @ a # b # gs2" for gs1 a b gs2
  proof (cases gs1)
    case Nil
    with that have "a = x # g" "gs = b # gs2" by simp_all
    with bnd show ?thesis by (simp add: merged_def)
  next
    case (Cons c cs)
    with that have "gs = cs @ a # b # gs2" by simp
    with adj show ?thesis by blast
  qed
  show ?thesis
    apply (rule exI [of _ "(x # g) # gs"])
    using Cons xs ne gr grp grp0 adj' by (auto simp: merged_def merge_pass_Cons)
qed

lemma foldl_combine_mono:
  "token_length (combine_chunks word_count a s)
     \<le> token_length (combine_chunks word_count a (foldl (combine_chunks word_count) s ys))"
proof (induction ys arbitrary: s)
  case Nil
  then show ?case by simp
next
  case (Cons y ys)
  have "token_length (combine_chunks word_count a s)
      \<le> token_length (combine_chunks word_count a (combine_chunks word_count s y))"
    using word_count_combine_mono [of a s y] by (simp add: token_length_combine_chunks)
  also have "\<dots> \<le> token_length (combine_chunks word_count a
        (foldl (combine_chunks word_count) (combine_chunks word_count s y) ys))"
    by (rule Cons.IH)
  finally show ?case by simp
qed

lemma merge_pass_adjacent:
  assumes "Suc i < length (merge_pass word_count mt xs)"
  shows "mt < token_length (combine_chunks word_count (merge_pass word_count mt xs ! i)
                              (merge_pass word_count mt xs ! Suc i))"
proof -
  from merge_pass_groups [of xs word_count mt] obtain gs where
    m: "merge_pass word_count mt xs = map (merged word_count) gs"
    and adj: "\<forall>gs1 a b gs2. gs = gs1 @ a # b # gs2 \<longrightarrow>
            mt < token_length (combine_chunks word_count (merged word_count a) (hd b))"
    by blast
  from assms m have i: "Suc i < length gs" by simp
  then have "gs = take i gs @ gs ! i # drop (Suc i) gs"
    by (simp add: id_take_nth_drop)
  moreover from i have "drop (Suc i) gs = gs ! Suc i # drop (Suc (Suc i)) gs"
    by (simp add: Cons_nth_drop_Suc)
  ultimately have "gs = take i gs @ gs ! i # gs ! Suc i # drop (Suc (Suc i)) gs"
    by simp
  with adj have "mt < token_length (combine_chunks word_count (merged word_count (gs ! i))
                                      (hd (gs ! Suc i)))"
    by blast
  also have "\<dots> \<le> token_length (combine_chunks word_count (merged word_count (gs ! i))
                                      (merged word_count (gs ! Suc i)))"
    unfolding merged_def [of word_count "gs ! Suc i"] by (rule foldl_combine_mono)
  finally show ?thesis using i by (simp add: m)
qed

section \<open>Properties of \<^verbatim>\<open>process_tree_to_chunks\<close>\<close>

lemma children_loop_concat:
  "children_loop tok spl chs mt cur acc =
     acc @ concat (map (\<lambda>ch. process_tree_to_chunks tok spl ch mt (child_headers cur ch)) chs)"
  by (induction chs arbitrary: acc) simp_all

lemma process_tree_to_chunks_pre_merge:
  "process_tree_to_chunks tok spl root mt cur = merge_pass tok mt (pre_merge_chunks tok spl root mt cur)"
  by (cases root) (simp add: pre_merge_chunks_def)

lemma proper_headers_combine:
  "proper_headers a \<Longrightarrow> proper_headers b \<Longrightarrow> proper_headers (combine_chunks tok a b)"
  by (auto simp: proper_headers_def combine_chunks_def Let_def dest: in_set_takeD)

lemma proper_child_headers: "[] \<notin> set cur \<Longrightarrow> [] \<notin> set (child_headers cur ch)"
  by (simp add: child_headers_def split: option.splits)

lemma proper_own_chunks: "[] \<notin> set cur \<Longrightarrow> list_all proper_headers (own_chunks tok spl root mt cur)"
  by (auto simp: own_chunks_def proper_headers_def list_all_iff)

lemma proper_process:
  "[] \<notin> set cur \<Longrightarrow> list_all proper_headers (process_tree_to_chunks tok spl root mt cur)"
  and "[] \<notin> set cur \<Longrightarrow> list_all proper_headers acc \<Longrightarrow>
       list_all proper_headers (children_loop tok spl chs mt cur acc)"
proof (induction tok spl root mt cur and tok spl chs mt cur acc
    rule: process_tree_to_chunks_children_loop.induct)
  case (1 tok splitter h c n ch pg max_tokens current_headers)
  then show ?case
    by (simp add: merge_pass_pres [of proper_headers] proper_headers_combine proper_own_chunks)
next
  case (2 tok splitter max_tokens current_headers chunks)
  then show ?case by simp
next
  case (3 tok splitter child rest max_tokens current_headers chunks)
  then show ?case by (simp add: proper_child_headers)
qed

lemma filter_proper: "[] \<notin> set hs \<Longrightarrow> filter (\<lambda>h. h \<noteq> []) hs = hs"
  by (induction hs) auto

lemma format_proper:
  "[] \<notin> set hs \<Longrightarrow> format_chunk_with_headers hs c False = (if hs = [] then c else join '' > '' hs @ NL @ NL @ c)"
  by (simp add: format_chunk_with_headers_def get_full_header_path_def filter_proper)

text \<open>
  C1, as stated, fails: a leaf of 12 words is over a budget of 3 tokens, the fallback
  splitter returns it as one group, and the merge loop returns that chunk of 12 tokens.
\<close>

theorem process_tree_to_chunks_budget_counterexample:
  "process_tree_to_chunks word_count one_group long_leaf 3 []
     = [\<lparr>content = ''a b c d e f g h i j k l'', token_length = 12, headers = [], pages = {0}\<rparr>]
   \<and> \<not> (12 :: int) \<le> 3"
  by (simp add: long_leaf_def own_chunks_def merge_pass_def merge_step_def strip_def
      strip_where_def is_space_def split_text_into_sentences_def word_count_def one_group_def)

lemma process_tree_to_chunks_budget_or_fallback:
  "c \<in> set (process_tree_to_chunks tok spl root mt cur) \<Longrightarrow>
     token_length c \<le> mt \<or> c \<in> set (fallback_chunks tok spl root mt cur)"
proof (induction root arbitrary: cur c)
  case (TreeElement h ct n ch pg)
  let ?node = "TreeElement h ct n ch pg"
  from TreeElement.prems have
    "c \<in> set (merge_pass tok mt
        (concat (map (\<lambda>child. process_tree_to_chunks tok spl child mt (child_headers cur child)) ch)
         @ own_chunks tok spl ?node mt cur))"
    by (simp add: children_loop_concat)
  from merge_pass_member [OF this] consider
    (budget) "token_length c \<le> mt"
    | (child) child where "child \<in> set ch"
        "c \<in> set (process_tree_to_chunks tok spl child mt (child_headers cur child))"
    | (own) "c \<in> set (own_chunks tok spl ?node mt cur)"
    by auto
  then show ?case
  proof cases
    case budget
    then show ?thesis by simp
  next
    case child
    from TreeElement.IH [OF child] child(1) show ?thesis by auto
  next
    case own
    show ?thesis
    proof (cases "strip ct \<noteq> [] \<and> n > mt")
      case True
      with own show ?thesis by simp
    next
      case False
      with own have "token_length c \<le> mt"
        by (auto simp: own_chunks_def split: if_splits)
      then show ?thesis by simp
    qed
  qed
qed

text \<open>
  C1, amended: every chunk that \<open>process_tree_to_chunks\<close> returns has a token length
  of at most \<open>max_tokens\<close>, unless it is a group of the fallback splitter, for a node of
  the subtree whose own content is over the budget, that is returned as it is.  With
  the word-count tokenizer, combining any two adjacent chunks of the returned list
  gives a token length above \<open>max_tokens\<close>.
\<close>

theorem process_tree_to_chunks_merge:
  "(\<forall>c\<in>set (process_tree_to_chunks tok spl root mt cur).
      token_length c \<le> mt \<or> c \<in> set (fallback_chunks tok spl root mt cur))
   \<and> (\<forall>i. Suc i < length (process_tree_to_chunks word_count spl root mt cur) \<longrightarrow>
         mt < token_length
                (combine_chunks word_count
                   (process_tree_to_chunks word_count spl root mt cur ! i)
                   (process_tree_to_chunks word_count spl root mt cur ! Suc i)))"
proof (rule conjI)
  show "\<forall>c\<in>set (process_tree_to_chunks tok spl root mt cur).
      token_length c \<le> mt \<or> c \<in> set (fallback_chunks tok spl root mt cur)"
    by (blast dest: process_tree_to_chunks_budget_or_fallback)
next
  show "\<forall>i. Suc i < length (process_tree_to_chunks word_count spl root mt cur) \<longrightarrow>
         mt < token_length
                (combine_chunks word_count
                   (process_tree_to_chunks word_count spl root mt cur ! i)
                   (process_tree_to_chunks word_count spl root mt cur ! Suc i))"
    unfolding process_tree_to_chunks_pre_merge by (blast intro: merge_pass_adjacent)
qed

text \<open>
  The two-section tree with a budget of 3: no node is over the budget, the chunks of
  \<open>A\<close> and \<open>B\<close> are within it, and combining them exceeds it.  For the leaf of 12 words
  the chunk that is returned is the group of the fallback splitter.
\<close>

lemma process_tree_to_chunks_two_sections:
  "process_tree_to_chunks word_count one_group two_sections 3 [] = [title_A, title_B]"
  by (simp add: two_sections_def own_chunks_def merge_pass_def merge_step_def strip_def
      strip_where_def is_space_def child_headers_def combine_chunks_def combined_content_def
      NL_def title_A_def title_B_def split_text_into_sentences_def word_count_def one_group_def)

lemma fallback_chunks_two_sections:
  "fallback_chunks word_count one_group two_sections 3 [] = []"
  by (simp add: two_sections_def strip_def strip_where_def is_space_def)

lemma fallback_chunks_long_leaf:
  "fallback_chunks word_count one_group long_leaf 3 []
     = [\<lparr>content = ''a b c d e f g h i j k l'', token_length = 12, headers = [], pages = {0}\<rparr>]"
  by (simp add: long_leaf_def own_chunks_def strip_def strip_where_def is_space_def
      split_text_into_sentences_def word_count_def one_group_def)

theorem process_tree_to_chunks_merge_witness:
  "process_tree_to_chunks word_count one_group two_sections 3 [] = [title_A, title_B]
   \<and> fallback_chunks word_count one_group two_sections 3 [] = []
   \<and> token_length title_A \<le> 3 \<and> token_length title_B \<le> 3
   \<and> 3 < token_length (combine_chunks word_count title_A title_B)"
proof -
  note out = process_tree_to_chunks_two_sections
  note th = process_tree_to_chunks_merge
    [of word_count one_group two_sections 3 "[]", unfolded out fallback_chunks_two_sections]
  from th have "token_length title_A \<le> 3" "token_length title_B \<le> 3"
    by simp_all
  moreover from th have "3 < token_length (combine_chunks word_count ([title_A, title_B] ! 0)
                                  ([title_A, title_B] ! Suc 0))"
    by simp
  ultimately show ?thesis
    by (simp add: out fallback_chunks_two_sections)
qed

text \<open>
  C2: for a node whose own content is not blank and whose token length is at most
  \<open>max_tokens\<close>, the block for the node's own content appends exactly one chunk, with the
  node's content, the node's token length, the current header path and the node's
  pages; it is the last chunk of the list that enters the merge loop, and its token
  length is at most \<open>max_tokens\<close>.
\<close>

theorem own_chunks_within_budget:
  assumes "strip (node_content root) \<noteq> []" and "node_token_length root \<le> max_tokens"
  shows "own_chunks tok spl root max_tokens cur
           = [\<lparr>content = node_content root, token_length = node_token_length root,
               headers = cur, pages = node_pages root\<rparr>]
         \<and> pre_merge_chunks tok spl root max_tokens cur
           = concat (map (\<lambda>ch. process_tree_to_chunks tok spl ch max_tokens (child_headers cur ch))
                       (children root))
             @ [\<lparr>content = node_content root, token_length = node_token_length root,
                 headers = cur, pages = node_pages root\<rparr>]
         \<and> list_all (\<lambda>c. token_length c \<le> max_tokens) (own_chunks tok spl root max_tokens cur)"
  using assms by (simp add: own_chunks_def pre_merge_chunks_def children_loop_concat)

theorem own_chunks_within_budget_witness:
  "strip (node_content leaf_A) \<noteq> [] \<and> node_token_length leaf_A \<le> 3
   \<and> own_chunks word_count one_group leaf_A 3 [''Title'', ''A''] = [title_A]
   \<and> pre_merge_chunks word_count one_group leaf_A 3 [''Title'', ''A''] = [title_A]
   \<and> token_length title_A \<le> 3"
proof -
  have h1: "strip (node_content leaf_A) \<noteq> []"
    by (simp add: leaf_A_def strip_def strip_where_def is_space_def)
  have h2: "node_token_length leaf_A \<le> 3"
    by (simp add: leaf_A_def)
  have t: "\<lparr>content = node_content leaf_A, token_length = node_token_length leaf_A,
            headers = [''Title'', ''A''], pages = node_pages leaf_A\<rparr> = title_A"
    by (simp add: leaf_A_def title_A_def)
  have c: "children leaf_A = []"
    by (simp add: leaf_A_def)
  have l: "token_length title_A \<le> 3"
    by (simp add: title_A_def)
  from own_chunks_within_budget [OF h1 h2, of word_count one_group "[''Title'', ''A'']"] h1 h2 l
  show ?thesis by (simp add: t c)
qed

text \<open>
  C8: the formatter returns the content alone when the list of headers is empty, and
  otherwise the headers joined by \<open>" > "\<close>, a blank line and the content, where the
  entries that are false in Python (\<^verbatim>\<open>None\<close>; in a list of strings, the empty string)
  are skipped.  The chunks that \<open>get_semantic_chunks\<close> formats have no such entry, so
  each of them is rendered as its content, or as all its headers joined by \<open>" > "\<close>, a
  blank line and its content.
\<close>

theorem format_chunk_with_headers_final:
  "format_chunk_with_headers hs c False
     = (if hs = [] then c else join '' > '' (filter (\<lambda>h. h \<noteq> []) hs) @ NL @ NL @ c)
   \<and> get_semantic_chunks tok spl root max_tokens
     = map (\<lambda>chunk. if headers chunk = [] then content chunk
                     else join '' > '' (headers chunk) @ NL @ NL @ content chunk)
         (process_tree_to_chunks tok spl root max_tokens [])"
proof (rule conjI)
  show "format_chunk_with_headers hs c False
     = (if hs = [] then c else join '' > '' (filter (\<lambda>h. h \<noteq> []) hs) @ NL @ NL @ c)"
    by (simp add: format_chunk_with_headers_def get_full_header_path_def)
next
  have "list_all proper_headers (process_tree_to_chunks tok spl root max_tokens [])"
    by (rule proper_process(1)) simp
  then have "format_chunk_with_headers (headers chunk) (content chunk) False
      = (if headers chunk = [] then content chunk
         else join '' > '' (headers chunk) @ NL @ NL @ content chunk)"
    if "chunk \<in> set (process_tree_to_chunks tok spl root max_tokens [])" for chunk
    using that by (simp add: list_all_iff proper_headers_def format_proper)
  then show "get_semantic_chunks tok spl root max_tokens
     = map (\<lambda>chunk. if headers chunk = [] then content chunk
                     else join '' > '' (headers chunk) @ NL @ NL @ content chunk)
         (process_tree_to_chunks tok spl root max_tokens [])"
    unfolding get_semantic_chunks_def by (intro map_cong refl) 
qed

text \<open>
  C9: the list of chunks that enters the merge loop of a node consists of the chunks
  returned for its children, in the order of the children, followed by the chunks of
  the node's own content; \<open>process_tree_to_chunks\<close> returns the merge of that list.
\<close>

theorem pre_merge_chunks_order:
  "pre_merge_chunks tok spl root max_tokens cur
     = concat (map (\<lambda>ch. process_tree_to_chunks tok spl ch max_tokens (child_headers cur ch))
                 (children root))
       @ own_chunks tok spl root max_tokens cur
   \<and> process_tree_to_chunks tok spl root max_tokens cur
     = merge_pass tok max_tokens (pre_merge_chunks tok spl root max_tokens cur)"
proof (rule conjI)
  show "pre_merge_chunks tok spl root max_tokens cur
     = concat (map (\<lambda>ch. process_tree_to_chunks tok spl ch max_tokens (child_headers cur ch))
                 (children root))
       @ own_chunks tok spl root max_tokens cur"
    by (simp add: pre_merge_chunks_def children_loop_concat)
next
  show "process_tree_to_chunks tok spl root max_tokens cur
     = merge_pass tok max_tokens (pre_merge_chunks tok spl root max_tokens cur)"
    by (rule process_tree_to_chunks_pre_merge)
qed

text \<open>
  A section \<open>Title\<close> whose own text \<open>intro\<close> precedes its subsection \<open>A\<close> in the document:
  the chunk of \<open>A\<close> enters the merge loop before the chunk of \<open>intro\<close>.
\<close>

lemma pre_merge_chunks_intro_and_leaf:
  "pre_merge_chunks word_count one_group intro_and_leaf 3 [''Title'']
     = [title_A, \<lparr>content = ''intro'', token_length = 1, headers = [''Title''], pages = {0}\<rparr>]"
  by (simp add: pre_merge_chunks_def intro_and_leaf_def leaf_A_def title_A_def own_chunks_def
      merge_pass_def merge_step_def strip_def strip_where_def is_space_def child_headers_def)

section \<open>Properties of \<^verbatim>\<open>parse_markdown_to_tree\<close>\<close>

lemma split_from_not_Nil: "split_from sep cur s \<noteq> []"
  by (induction sep cur s rule: split_from.induct) simp_all

lemma first_index_Some: "first_index P xs = Some i \<Longrightarrow> i < length xs"
  by (induction xs arbitrary: i) (auto split: if_splits)

lemma insert_at_root:
  "header (insert_at r ps l) = header r \<and> node_content (insert_at r ps l) = node_content r
   \<and> node_token_length (insert_at r ps l) = node_token_length r
   \<and> node_pages (insert_at r ps l) = node_pages r"
  by (cases r; cases ps) (auto split: option.splits)

lemma new_child_succeeds:
  "node_text \<noteq> [] \<Longrightarrow> \<exists>leaf. new_child tok pgs pb node_text = Inr leaf"
  by (simp add: new_child_def page_index_def first_line_def Let_def split: list.splits option.splits)

lemma new_child_error:
  "new_child tok pgs pb node_text = Inl e \<Longrightarrow> e = IndexError"
  by (auto simp: new_child_def page_index_def first_line_def Let_def
      split: list.splits option.splits sum.splits if_splits)

lemma build_tree_succeeds:
  "\<forall>n\<in>set nodes. raw_text n \<noteq> [] \<Longrightarrow> \<exists>t. build_tree tok pgs pb root nodes = Inr t"
proof (induction nodes arbitrary: root)
  case Nil
  then show ?case by simp
next
  case (Cons n nodes)
  from Cons.prems have "raw_text n \<noteq> []" by simp
  from new_child_succeeds [OF this] obtain leaf where "new_child tok pgs pb (raw_text n) = Inr leaf"
    by blast
  with Cons show ?case by simp
qed

lemma build_tree_error:
  "build_tree tok pgs pb root nodes = Inl e \<Longrightarrow> e = IndexError"
proof (induction nodes arbitrary: root)
  case Nil
  then show ?case by simp
next
  case (Cons n nodes)
  then show ?case by (auto split: sum.splits dest: new_child_error)
qed

lemma build_tree_root:
  "build_tree tok pgs pb root nodes = Inr t \<Longrightarrow>
     header t = header root \<and> node_content t = node_content root"
proof (induction nodes arbitrary: root)
  case Nil
  then show ?case by simp
next
  case (Cons n nodes)
  then show ?case by (auto split: sum.splits simp: insert_at_root)
qed

lemma parse_cases:
  "parse_markdown_to_tree tok seg doc pb =
     (if strip doc = [] then Inl (ValueError ''Empty markdown text provided'')
      else if pb = [] then Inl (ValueError ''empty separator'')
      else if seg doc = [] then Inl (ValueError ''No content found in markdown text'')
      else build_tree tok (split_from pb [] doc) pb (TreeElement None [] 0 [] {}) (seg doc))"
  by (simp add: parse_markdown_to_tree_def str_split_def Let_def)

lemma int_ranges:
  "{0..<1::int} = {0}" "{- 1..<1::int} = {- 1, 0}" "{0..<3::int} = {0, 1, 2}" "{0..<2::int} = {0, 1}"
  by auto

lemma parse_hello:
  "parse_markdown_to_tree word_count one_section ''Hello world.'' default_page_break = Inr hello_tree"
  by (simp add: parse_cases one_section_def strip_def strip_where_def is_space_def
      default_page_break_def NL_def new_child_def section_lines_def page_index_def
      first_line_def is_line_boundary_def header_match_def path_parts_def strip_chars_def
      page_count_def str_count_def word_count_def hello_tree_def Let_def int_ranges)

lemma parse_root:
  "parse_markdown_to_tree tok seg doc pb = Inr t \<Longrightarrow> header t = None \<and> node_content t = []"
  by (auto simp: parse_cases split: if_splits dest: build_tree_root)

text \<open>
  C5, as stated, fails: with an empty page-break delimiter, \<^verbatim>\<open>markdown_text.split\<close>
  raises \<^verbatim>\<open>ValueError\<close> for a document that is not blank and has a section.
\<close>

theorem parse_markdown_to_tree_errors_counterexample:
  "parse_markdown_to_tree word_count one_section ''x'' [] = Inl (ValueError ''empty separator'')
   \<and> strip ''x'' \<noteq> [] \<and> one_section ''x'' \<noteq> []"
  by (simp add: parse_cases one_section_def strip_def strip_where_def is_space_def)

text \<open>
  C5, amended: when the page-break delimiter is not empty and every section that the
  segmenter returns has a non-empty text, \<open>parse_markdown_to_tree\<close> raises
  \<^verbatim>\<open>ValueError\<close> if and only if the document is empty or consists of white space, or
  the segmenter returns no section; for every other document it returns a tree.
\<close>

theorem parse_markdown_to_tree_errors:
  assumes "page_break \<noteq> []" and "\<forall>n\<in>set (seg doc). raw_text n \<noteq> []"
  shows "((\<exists>msg. parse_markdown_to_tree tok seg doc page_break = Inl (ValueError msg))
            \<longleftrightarrow> (strip doc = [] \<or> seg doc = []))
         \<and> ((\<exists>t. parse_markdown_to_tree tok seg doc page_break = Inr t)
            \<longleftrightarrow> \<not> (strip doc = [] \<or> seg doc = []))"
proof -
  from build_tree_succeeds [OF assms(2)] obtain t where
    "build_tree tok (split_from page_break [] doc) page_break (TreeElement None [] 0 [] {}) (seg doc)
       = Inr t"
    by blast
  with assms(1) show ?thesis by (simp add: parse_cases)
qed

theorem parse_markdown_to_tree_errors_witness:
  "default_page_break \<noteq> [] \<and> strip ''Hello world.'' \<noteq> [] \<and> one_section ''Hello world.'' \<noteq> []
   \<and> (\<exists>t. parse_markdown_to_tree word_count one_section ''Hello world.'' default_page_break = Inr t)
   \<and> \<not> (\<exists>msg. parse_markdown_to_tree word_count one_section ''Hello world.'' default_page_break
               = Inl (ValueError msg))"
proof -
  have h1: "default_page_break \<noteq> []"
    by (simp add: default_page_break_def NL_def)
  have s: "strip ''Hello world.'' = ''Hello world.''"
    by (simp add: strip_def strip_where_def is_space_def)
  have h2: "\<forall>n\<in>set (one_section ''Hello world.''). raw_text n \<noteq> []"
    by (simp add: one_section_def s)
  have n: "one_section ''Hello world.'' \<noteq> []"
    by (simp add: one_section_def)
  from parse_markdown_to_tree_errors
    [where seg = one_section and doc = "''Hello world.''" and tok = word_count, OF h1 h2] h1 n
  show ?thesis by (simp add: s)
qed

text \<open>
  C6, as stated, fails: for the document \<open>Hello world.\<close>, which has no heading, the
  content of the root is empty; the text is the content of a child of the root.
\<close>

theorem parse_markdown_to_tree_no_headings_counterexample:
  "parse_markdown_to_tree word_count one_section ''Hello world.'' default_page_break = Inr hello_tree
   \<and> node_content hello_tree \<noteq> ''Hello world.''"
  by (simp add: parse_hello) (simp add: hello_tree_def)

text \<open>
  C6, amended: when the segmenter returns one section, with an empty heading path and
  a first line that is no heading line, the tree that \<open>parse_markdown_to_tree\<close>
  returns is a root without header and with empty content, whose only child is a leaf
  without header whose content is the whole text of the section; the chunks of the
  tree are the merge of the chunks of that leaf, which are the merge of the chunks of
  its own content under the empty header path.
\<close>

theorem parse_markdown_to_tree_no_headings:
  assumes "parse_markdown_to_tree tok seg doc page_break = Inr t"
    and "seg doc = [n]" and "path_parts (header_path n) = []"
    and "header_match (case section_lines (raw_text n) of [] \<Rightarrow> [] | l # _ \<Rightarrow> strip l) = None"
  shows "header t = None \<and> node_content t = []
     \<and> (\<exists>leaf. children t = [leaf] \<and> header leaf = None \<and> node_content leaf = raw_text n
          \<and> node_token_length leaf = int (tok (raw_text n)) \<and> children leaf = []
          \<and> process_tree_to_chunks tok spl t max_tokens []
              = merge_pass tok max_tokens (process_tree_to_chunks tok spl leaf max_tokens [])
          \<and> process_tree_to_chunks tok spl leaf max_tokens []
              = merge_pass tok max_tokens (own_chunks tok spl leaf max_tokens []))"
proof -
  from assms(1,2) have
    "build_tree tok (split_from page_break [] doc) page_break (TreeElement None [] 0 [] {}) [n]
       = Inr t"
    by (simp add: parse_cases split: if_splits)
  then obtain leaf where
    l: "new_child tok (split_from page_break [] doc) page_break (raw_text n) = Inr leaf"
    and "t = insert_at (TreeElement None [] 0 [] {}) (path_parts (header_path n)) leaf"
    by (auto split: sum.splits)
  with assms(3) have t: "t = TreeElement None [] 0 [leaf] {}"
    by simp
  from l assms(4) obtain pg where
    leaf: "leaf = TreeElement None (raw_text n) (int (tok (raw_text n))) [] pg"
    by (auto simp: new_child_def Let_def split: sum.splits)
  have e: "strip [] = []"
    by (simp add: strip_def strip_where_def)
  show ?thesis
    unfolding t leaf
    by (simp add: own_chunks_def child_headers_def e merge_pass_Nil)
qed

theorem parse_markdown_to_tree_no_headings_witness:
  "parse_markdown_to_tree word_count one_section ''Hello world.'' default_page_break = Inr hello_tree
   \<and> one_section ''Hello world.'' = [\<lparr>raw_text = ''Hello world.'', header_path = Some ''/''\<rparr>]
   \<and> node_content hello_tree = []
   \<and> (\<exists>leaf. children hello_tree = [leaf] \<and> header leaf = None
          \<and> node_content leaf = ''Hello world.'')"
proof -
  let ?n = "\<lparr>raw_text = ''Hello world.'', header_path = Some ''/''\<rparr>"
  have h2: "one_section ''Hello world.'' = [?n]"
    by (simp add: one_section_def strip_def strip_where_def is_space_def)
  have h3: "path_parts (header_path ?n) = []"
    by (simp add: path_parts_def strip_chars_def strip_where_def)
  have h4: "header_match (case section_lines (raw_text ?n) of [] \<Rightarrow> [] | l # _ \<Rightarrow> strip l) = None"
    by (simp add: section_lines_def NL_def strip_def strip_where_def is_space_def header_match_def)
  from parse_markdown_to_tree_no_headings
    [OF parse_hello h2 h3 h4, where spl = one_group and max_tokens = 100]
  obtain leaf where "node_content hello_tree = []" and "children hello_tree = [leaf]"
    and "header leaf = None" and "node_content leaf = ''Hello world.''"
    by auto
  with h2 show ?thesis by (simp add: parse_hello)
qed

text \<open>
  C7 does not hold of the code: only the first line \<open>---\<close> of a section is removed.
  For a section with a heading and two page breaks, the content of the node keeps the
  second line \<open>---\<close>.
\<close>

theorem parse_markdown_to_tree_keeps_artifact:
  "parse_markdown_to_tree word_count one_section two_breaks default_page_break
     = Inr (TreeElement None [] 0
         [TreeElement (Some ''H'') (''a'' @ NL @ ''b'' @ NL @ ''---'' @ NL @ ''c'') 4 [] {0, 1, 2}] {})
   \<and> ''---'' \<in> set (split_from NL [] (''a'' @ NL @ ''b'' @ NL @ ''---'' @ NL @ ''c''))"
  by (simp add: parse_cases one_section_def two_breaks_def strip_def strip_where_def is_space_def
      default_page_break_def NL_def new_child_def section_lines_def page_index_def
      first_line_def is_line_boundary_def header_match_def path_parts_def strip_chars_def
      page_count_def str_count_def word_count_def Let_def int_ranges)

text \<open>
  A section without heading keeps every line \<open>---\<close>: its content is the text of the
  section, not the lines that remain.
\<close>

lemma parse_markdown_to_tree_keeps_artifact_no_heading:
  "parse_markdown_to_tree word_count one_section (''intro'' @ NL @ ''---'' @ NL @ ''more'')
       default_page_break
     = Inr (TreeElement None [] 0
         [TreeElement None (''intro'' @ NL @ ''---'' @ NL @ ''more'') 3 [] {0, 1}] {})"
  by (simp add: parse_cases one_section_def strip_def strip_where_def is_space_def
      default_page_break_def NL_def new_child_def section_lines_def page_index_def
      first_line_def is_line_boundary_def header_match_def path_parts_def strip_chars_def
      page_count_def str_count_def word_count_def Let_def int_ranges)

lemma first_index_None: "\<forall>x\<in>set xs. \<not> P x \<Longrightarrow> first_index P xs = None"
  by (induction xs) simp_all

lemma node_fields_update:
  assumes "i < length ch" and "set (node_fields (ch ! i)) \<subseteq> set (node_fields x)"
  shows "set (concat (map node_fields ch)) \<subseteq> set (concat (map node_fields (ch[i := x])))"
proof -
  from assms(1) have c: "ch = take i ch @ ch ! i # drop (Suc i) ch"
    by (rule id_take_nth_drop)
  from assms(1) have u: "ch[i := x] = take i ch @ x # drop (Suc i) ch"
    by (rule upd_conv_take_nth_drop)
  have "set (concat (map node_fields (take i ch @ ch ! i # drop (Suc i) ch)))
        \<subseteq> set (concat (map node_fields (take i ch @ x # drop (Suc i) ch)))"
    using assms(2) by auto
  with c u show ?thesis by simp
qed

lemma node_fields_insert_at:
  "set (node_fields root) \<union> set (node_fields leaf) \<subseteq> set (node_fields (insert_at root parts leaf))"
proof (induction root parts leaf rule: insert_at.induct)
  case (1 h c n ch pg new_child)
  show ?case by auto
next
  case (2 h c n ch pg part parts new_child)
  show ?case
  proof (cases "first_index (\<lambda>child. header child = Some part) ch")
    case None
    with 2(1) [OF None] show ?thesis by auto
  next
    case (Some i)
    then have i: "i < length ch" by (rule first_index_Some)
    from 2(2) [OF Some] have
      a: "set (node_fields (ch ! i)) \<subseteq> set (node_fields (insert_at (ch ! i) parts new_child))"
      and b: "set (node_fields new_child) \<subseteq> set (node_fields (insert_at (ch ! i) parts new_child))"
      by simp_all
    from node_fields_update [OF i a] have
      c: "set (concat (map node_fields ch))
          \<subseteq> set (concat (map node_fields (ch[i := insert_at (ch ! i) parts new_child])))" .
    from i have "insert_at (ch ! i) parts new_child
        \<in> set (ch[i := insert_at (ch ! i) parts new_child])"
      by (simp add: set_update_memI)
    with b have
      d: "set (node_fields new_child)
          \<subseteq> set (concat (map node_fields (ch[i := insert_at (ch ! i) parts new_child])))"
      by auto
    from c d Some show ?thesis by auto
  qed
qed

lemma build_tree_fields:
  "build_tree tok pgs pb root nodes = Inr t \<Longrightarrow>
     set (node_fields root) \<subseteq> set (node_fields t)
     \<and> (\<forall>n\<in>set nodes. \<forall>leaf. new_child tok pgs pb (raw_text n) = Inr leaf
           \<longrightarrow> set (node_fields leaf) \<subseteq> set (node_fields t))"
proof (induction nodes arbitrary: root)
  case Nil
  then show ?case by simp
next
  case (Cons n nodes)
  from Cons.prems obtain leaf where
    l: "new_child tok pgs pb (raw_text n) = Inr leaf"
    and b: "build_tree tok pgs pb (insert_at root (path_parts (header_path n)) leaf) nodes = Inr t"
    by (auto split: sum.splits)
  from Cons.IH [OF b] have
    1: "set (node_fields (insert_at root (path_parts (header_path n)) leaf)) \<subseteq> set (node_fields t)"
    and 2: "\<forall>n\<in>set nodes. \<forall>leaf. new_child tok pgs pb (raw_text n) = Inr leaf
           \<longrightarrow> set (node_fields leaf) \<subseteq> set (node_fields t)"
    by simp_all
  from node_fields_insert_at [of root leaf "path_parts (header_path n)"] 1 have
    3: "set (node_fields root) \<subseteq> set (node_fields t)"
    and 4: "set (node_fields leaf) \<subseteq> set (node_fields t)"
    by auto
  from 2 3 4 l show ?case by auto
qed

lemma new_child_sentinel:
  assumes "first_line node_text = Inr l" and "\<forall>p\<in>set pgs. \<not> contains l p"
  shows "\<exists>h c k. new_child tok pgs pb node_text
           = Inr (TreeElement h c k [] (page_count (- 1) node_text pb))"
  using assms
  by (simp add: new_child_def page_index_def first_index_None Let_def
      split: list.splits option.splits)

text \<open>
  C10: for a document that is not blank, a page-break delimiter that is not empty and
  sections with non-empty texts, if the first line of a section is contained in no
  page of the document, then \<open>parse_markdown_to_tree\<close> returns a tree, and the tree
  has a node whose pages are the range from \<open>-1\<close> up to, and without, the number of
  page breaks in the text of the section; \<open>-1\<close> is one of these pages.
\<close>

theorem parse_markdown_to_tree_sentinel:
  assumes "strip doc \<noteq> []" and "page_break \<noteq> []"
    and "\<forall>n\<in>set (seg doc). raw_text n \<noteq> []" and "n \<in> set (seg doc)"
    and "first_line (raw_text n) = Inr l"
    and "\<forall>p\<in>set (split_from page_break [] doc). \<not> contains l p"
  shows "\<exists>t h c k. parse_markdown_to_tree tok seg doc page_break = Inr t
           \<and> (h, c, k, {- 1 ..< int (str_count (raw_text n) page_break)}) \<in> set (node_fields t)
           \<and> - 1 \<in> {- 1 ..< int (str_count (raw_text n) page_break)}"
proof -
  let ?pgs = "split_from page_break [] doc"
  from assms(4) have ne: "seg doc \<noteq> []" by auto
  from build_tree_succeeds [OF assms(3)] obtain t where
    b: "build_tree tok ?pgs page_break (TreeElement None [] 0 [] {}) (seg doc) = Inr t"
    by blast
  with assms(1,2) ne have p: "parse_markdown_to_tree tok seg doc page_break = Inr t"
    by (simp add: parse_cases)
  from new_child_sentinel [OF assms(5,6)] obtain h c k where
    l: "new_child tok ?pgs page_break (raw_text n)
          = Inr (TreeElement h c k [] (page_count (- 1) (raw_text n) page_break))"
    by blast
  from build_tree_fields [OF b] assms(4) l have
    "set (node_fields (TreeElement h c k [] (page_count (- 1) (raw_text n) page_break)))
       \<subseteq> set (node_fields t)"
    by blast
  then have "(h, c, k, {- 1 ..< int (str_count (raw_text n) page_break)}) \<in> set (node_fields t)"
    by (simp add: page_count_def)
  with p show ?thesis by auto
qed

text \<open>
  The document \<open>a|b\<close> with the delimiter \<open>|\<close>: the first line of its section is in
  neither page, and the pages of the node are \<open>-1\<close> and \<open>0\<close>.
\<close>

theorem parse_markdown_to_tree_sentinel_witness:
  "strip bar_doc \<noteq> [] \<and> first_line (strip bar_doc) = Inr ''a|b''
   \<and> split_from ''|'' [] bar_doc = [''a'', ''b'']
   \<and> \<not> contains ''a|b'' ''a'' \<and> \<not> contains ''a|b'' ''b''
   \<and> str_count (strip bar_doc) ''|'' = 1
   \<and> (\<exists>t h c k. parse_markdown_to_tree word_count one_section bar_doc ''|'' = Inr t
           \<and> (h, c, k, {- 1, 0}) \<in> set (node_fields t))"
proof -
  have s: "strip bar_doc = ''a|b''"
    by (simp add: bar_doc_def strip_def strip_where_def is_space_def)
  have h1: "strip bar_doc \<noteq> []" by (simp add: s)
  have h2: "''|'' \<noteq> []" by simp
  have h3: "\<forall>n\<in>set (one_section bar_doc). raw_text n \<noteq> []"
    by (simp add: one_section_def s)
  have h4: "\<lparr>raw_text = ''a|b'', header_path = Some ''/''\<rparr> \<in> set (one_section bar_doc)"
    by (simp add: one_section_def s)
  have h5: "first_line (raw_text \<lparr>raw_text = ''a|b'', header_path = Some ''/''\<rparr>) = Inr ''a|b''"
    by (simp add: first_line_def is_line_boundary_def)
  have sp: "split_from ''|'' [] bar_doc = [''a'', ''b'']"
    by (simp add: bar_doc_def)
  have c: "\<not> contains ''a|b'' ''a''" "\<not> contains ''a|b'' ''b''"
    by simp_all
  have h6: "\<forall>p\<in>set (split_from ''|'' [] bar_doc). \<not> contains ''a|b'' p"
    by (simp add: sp)
  have n: "str_count ''a|b'' ''|'' = 1"
    by (simp add: str_count_def)
  from parse_markdown_to_tree_sentinel
    [where seg = one_section and doc = bar_doc and tok = word_count, OF h1 h2 h3 h4 h5 h6]
  have "\<exists>t h c k. parse_markdown_to_tree word_count one_section bar_doc ''|'' = Inr t
           \<and> (h, c, k, {- 1 ..< 1}) \<in> set (node_fields t)"
    by (simp add: n)
  with h1 h5 sp c n s show ?thesis by (simp add: int_ranges)
qed

end
